theory Spec2Isabelle
  imports Main "HOL-Library.Char_ord" "HOL-Library.List_Lexorder"
    "HOL-Library.Product_Lexorder" "HOL-Library.AList"
begin

section \<open>Git LFS pointer files: a model of \<^verbatim>\<open>git_lfs/pointer.py\<close>\<close>

subsection \<open>Values and exceptions\<close>

text \<open>
  Python \<^verbatim>\<open>bytes\<close> are lists of 8-bit characters; Python \<^verbatim>\<open>str\<close> is a list of
  code points. Exceptions are values of \<open>error\<close>; a function that may raise returns
  \<open>error + 'a\<close> with \<open>Inl\<close> for the exception.
\<close>

type_synonym bytes = "char list"
type_synonym pystr = "nat list"

datatype error =
    VersionUnsupportedException
  | PointerFormatException
  | TypeError
  | ValueError
  | BinasciiError
  | UnicodeEncodeError
  | UnicodeDecodeError
  | KeyError
  | AttributeError


definition NL :: char where
  "NL = CHR 0x0A"

definition encode_ascii :: "pystr \<Rightarrow> error + bytes" where
  "encode_ascii s =
     (if list_all (\<lambda>n. n < 128) s then Inr (map char_of s) else Inl UnicodeEncodeError)"

definition decode_ascii :: "bytes \<Rightarrow> error + pystr" where
  "decode_ascii b =
     (if list_all (\<lambda>c. (of_char c :: nat) < 128) b then Inr (map of_char b)
      else Inl UnicodeDecodeError)"

definition str_of :: "bytes \<Rightarrow> pystr" where
  \<comment> \<open>a \<^verbatim>\<open>str\<close> literal of the source, written with its ASCII bytes\<close>
  "str_of b = map of_char b"

subsection \<open>Operations on bytes\<close>

definition endswith_nl :: "bytes \<Rightarrow> bool" where
  \<comment> \<open>\<^verbatim>\<open>line.endswith(b'\n')\<close>\<close>
  "endswith_nl line = (line \<noteq> [] \<and> last line = NL)"

definition rstrip_nl :: "bytes \<Rightarrow> bytes" where
  \<comment> \<open>\<^verbatim>\<open>line.rstrip(b'\n')\<close>: every trailing newline goes\<close>
  "rstrip_nl line = rev (dropWhile (\<lambda>c. c = NL) (rev line))"

definition split1 :: "char \<Rightarrow> bytes \<Rightarrow> bytes list" where
  \<comment> \<open>\<^verbatim>\<open>s.split(sep, 1)\<close>: at most one split, at the first separator\<close>
  "split1 sep s =
     (if sep \<in> set s
      then [takeWhile (\<lambda>c. c \<noteq> sep) s, tl (dropWhile (\<lambda>c. c \<noteq> sep) s)]
      else [s])"

definition unpack2 :: "'a list \<Rightarrow> error + 'a \<times> 'a" where
  \<comment> \<open>\<^verbatim>\<open>a, b = xs\<close>: any other number of values raises \<^verbatim>\<open>ValueError\<close>\<close>
  "unpack2 xs = (case xs of [a, b] \<Rightarrow> Inr (a, b) | _ \<Rightarrow> Inl ValueError)"

fun join :: "bytes \<Rightarrow> bytes list \<Rightarrow> bytes" where
  \<comment> \<open>\<^verbatim>\<open>sep.join(xs)\<close>\<close>
  "join sep [] = []"
| "join sep [x] = x"
| "join sep (x # y # ys) = x @ sep @ join sep (y # ys)"

definition isdigit :: "bytes \<Rightarrow> bool" where
  \<comment> \<open>\<^verbatim>\<open>bytes.isdigit()\<close>: non-empty and ASCII decimal digits only\<close>
  "isdigit s =
     (s \<noteq> [] \<and> list_all (\<lambda>c. 48 \<le> (of_char c :: nat) \<and> (of_char c :: nat) \<le> 57) s)"

definition int_of_bytes :: "bytes \<Rightarrow> int" where
  \<comment> \<open>\<^verbatim>\<open>int(s)\<close>, which the source calls only after \<^verbatim>\<open>s.isdigit()\<close> held; the
      interpreter's optional cap on the number of digits converted is not modelled\<close>
  "int_of_bytes s = fold (\<lambda>c acc. 10 * acc + (int (of_char c) - 48)) s 0"

fun digits :: "nat \<Rightarrow> bytes" where
  "digits n =
     (if n < 10 then [char_of (48 + n)]
      else digits (n div 10) @ [char_of (48 + n mod 10)])"

declare digits.simps [simp del]

definition format_d :: "int \<Rightarrow> bytes" where
  \<comment> \<open>\<^verbatim>\<open>b'%d' % n\<close>\<close>
  "format_d n = (if n < 0 then CHR ''-'' # digits (nat (- n)) else digits (nat n))"

subsection \<open>Dictionaries\<close>

text \<open>
  A \<^verbatim>\<open>dict\<close> is an association list in insertion order: \<^verbatim>\<open>d[k] = v\<close> replaces the
  value of a key already there, in place, and appends a new key at the end
  (\<^const>\<open>AList.update\<close>); \<^verbatim>\<open>d[k]\<close> raises \<^verbatim>\<open>KeyError\<close> on a key that is not there.
\<close>

type_synonym dict = "(bytes \<times> bytes) list"

definition getitem :: "('k \<times> 'v) list \<Rightarrow> 'k \<Rightarrow> error + 'v" where
  "getitem d k = (case map_of d k of None \<Rightarrow> Inl KeyError | Some v \<Rightarrow> Inr v)"

subsection \<open>Byte streams\<close>

text \<open>
  A \<^verbatim>\<open>BytesIO\<close> is the bytes not read yet. \<open>readline_n n\<close> is \<^verbatim>\<open>f.readline(n)\<close>: it
  stops after the first newline or after \<open>n\<close> bytes; \<open>readline\<close> has no bound.
  Both return the line and the stream left.
\<close>

fun readline_n :: "nat \<Rightarrow> bytes \<Rightarrow> bytes \<times> bytes" where
  "readline_n 0 f = ([], f)"
| "readline_n (Suc n) [] = ([], [])"
| "readline_n (Suc n) (c # cs) =
     (if c = NL then ([c], cs)
      else (case readline_n n cs of (line, rest) \<Rightarrow> (c # line, rest)))"

fun readline :: "bytes \<Rightarrow> bytes \<times> bytes" where
  "readline [] = ([], [])"
| "readline (c # cs) =
     (if c = NL then ([c], cs)
      else (case readline cs of (line, rest) \<Rightarrow> (c # line, rest)))"

lemma readline_append: "readline f = (line, rest) \<Longrightarrow> line @ rest = f"
  by (induction f arbitrary: line rest) (auto split: if_splits prod.splits)

text \<open>\<^verbatim>\<open>for line in f\<close>: the lines read until \<^verbatim>\<open>readline\<close> returns nothing.\<close>

function iter_lines :: "bytes \<Rightarrow> bytes list" where
  "iter_lines f =
     (case readline f of (line, rest) \<Rightarrow>
        if line = [] then [] else line # iter_lines rest)"
  by pat_completeness auto
termination
  by (relation "measure length") (auto dest!: readline_append [OF sym])

declare iter_lines.simps [simp del]

subsection \<open>Keys and versions\<close>

definition Key_VERSION :: bytes where
  "Key_VERSION = ''version''"

definition Key_OID :: bytes where
  "Key_OID = ''oid''"

definition Key_SIZE :: bytes where
  "Key_SIZE = ''size''"

datatype Version = V1 | PRE | ALPHA

fun Version_value :: "Version \<Rightarrow> bytes" where
  "Version_value V1 = ''https://git-lfs.github.com/spec/v1''"
| "Version_value PRE = ''https://hawser.github.com/spec/v1''"
| "Version_value ALPHA = ''http://git-media.io/v/2''"

definition Version_verify :: "bytes \<Rightarrow> bool" where
  "Version_verify line = (line \<in> set (map Version_value [V1, PRE, ALPHA]))"

subsection \<open>The digest object \<^verbatim>\<open>SHA256\<close>\<close>

record SHA256 =
  hexsha :: bytes
  sha :: bytes

text \<open>The argument of the constructor: a \<^verbatim>\<open>str\<close>, a \<^verbatim>\<open>bytes\<close>, or an object that is
  neither and has no \<^verbatim>\<open>encode\<close> attribute.\<close>

datatype hexsha_arg = Str pystr | Bytes bytes | Other

definition hexval :: "char \<Rightarrow> nat option" where
  "hexval c =
     (let n = (of_char c :: nat) in
      if 48 \<le> n \<and> n \<le> 57 then Some (n - 48)
      else if 97 \<le> n \<and> n \<le> 102 then Some (n - 87)
      else if 65 \<le> n \<and> n \<le> 70 then Some (n - 55)
      else None)"

text \<open>\<^verbatim>\<open>binascii.unhexlify\<close>: two hexadecimal digits of either case give one byte; an odd
  length or any other character raises \<^verbatim>\<open>binascii.Error\<close>.\<close>

fun unhexlify :: "bytes \<Rightarrow> error + bytes" where
  "unhexlify [] = Inr []"
| "unhexlify [a] = Inl BinasciiError"
| "unhexlify (a # b # cs) =
     (case (hexval a, hexval b) of
        (Some x, Some y) \<Rightarrow>
          (case unhexlify cs of
             Inl e \<Rightarrow> Inl e
           | Inr raw \<Rightarrow> Inr (char_of (16 * x + y) # raw))
      | _ \<Rightarrow> Inl BinasciiError)"

definition digest_name :: pystr where
  "digest_name = str_of ''sha256''"

definition SHA256_init :: "hexsha_arg \<Rightarrow> error + SHA256" where
  "SHA256_init arg =
     (case (case arg of Str s \<Rightarrow> map_sum id Bytes (encode_ascii s) | _ \<Rightarrow> Inr arg) of
        Inl e \<Rightarrow> Inl e
      | Inr (Bytes b) \<Rightarrow>
          if length b \<noteq> 64 then Inl ValueError
          else (case unhexlify b of
                  Inl e \<Rightarrow> Inl e
                | Inr raw \<Rightarrow> Inr \<lparr>hexsha = b, sha = raw\<rparr>)
      | Inr _ \<Rightarrow> Inl TypeError)"


definition hexdigest :: "SHA256 \<Rightarrow> error + pystr" where
  "hexdigest d = decode_ascii (hexsha d)"

definition supported_digests :: "(bytes \<times> (hexsha_arg \<Rightarrow> error + SHA256)) list" where
  "supported_digests = [(''sha256'', SHA256_init)]"

subsection \<open>The pointer record\<close>

text \<open>\<^verbatim>\<open>version\<close> is a class attribute outside \<^verbatim>\<open>__slots__\<close>: no instance can
  carry another value.\<close>

record Pointer =
  attrs :: dict
  oid :: "SHA256 option"
  size_int :: int

definition Pointer_version :: Version where
  "Pointer_version = V1"

definition Pointer_init :: Pointer where
  "Pointer_init = \<lparr>attrs = [], oid = None, size_int = 0\<rparr>"

text \<open>\<^verbatim>\<open>_verify_version\<close> returns a \<^verbatim>\<open>bool\<close> or, on its last line, an exception
  object (it is returned, not raised). \<open>truthy\<close> is what \<^verbatim>\<open>not\<close> sees of the result:
  an exception object is true.\<close>

datatype verify_result = Bool bool | Exc error

fun truthy :: "verify_result \<Rightarrow> bool" where
  "truthy (Bool b) = b"
| "truthy (Exc e) = True"

definition verify_version :: "bytes \<Rightarrow> error + verify_result" where
  "verify_version line =
     (if endswith_nl line \<and> CHR '' '' \<in> set line then
        (case unpack2 (split1 CHR '' '' (rstrip_nl line)) of
           Inl e \<Rightarrow> Inl e
         | Inr (key, val) \<Rightarrow>
             if key = Key_VERSION then Inr (Bool (Version_verify val))
             else Inr (Exc PointerFormatException))
      else Inr (Exc PointerFormatException))"

text \<open>The loop over the attribute lines of \<^verbatim>\<open>from_file\<close>, on the dictionary built so
  far: the first line that does not unpack ends it.\<close>

fun read_attrs :: "dict \<Rightarrow> bytes list \<Rightarrow> error + dict" where
  "read_attrs d [] = Inr d"
| "read_attrs d (line # ls) =
     (case unpack2 (split1 CHR '' '' (rstrip_nl line)) of
        Inl e \<Rightarrow> Inl e
      | Inr (key, val) \<Rightarrow> read_attrs (AList.update key val d) ls)"

definition from_file :: "bytes \<Rightarrow> error + Pointer" where
  "from_file f =
     (case readline_n 256 f of (line, rest) \<Rightarrow>
        if line = [] then Inr Pointer_init
        else (case verify_version line of
          Inl e \<Rightarrow> Inl e
        | Inr ok \<Rightarrow>
            if \<not> truthy ok then Inl VersionUnsupportedException
            else (case read_attrs [] (iter_lines rest) of
              Inl e \<Rightarrow> Inl e
            | Inr d \<Rightarrow>
                (case getitem d Key_OID of
                  Inl e \<Rightarrow> Inl e
                | Inr oid_val \<Rightarrow>
                    (case unpack2 (split1 CHR '':'' oid_val) of
                      Inl e \<Rightarrow> Inl e
                    | Inr (oid_type, oid_hash) \<Rightarrow>
                        (case map_of supported_digests oid_type of
                          None \<Rightarrow> Inl PointerFormatException
                        | Some init \<Rightarrow>
                            (case init (Bytes oid_hash) of
                              Inl e \<Rightarrow> Inl e
                            | Inr h \<Rightarrow>
                                (case getitem d Key_SIZE of
                                  Inl e \<Rightarrow> Inl e
                                | Inr size_val \<Rightarrow>
                                    if \<not> isdigit size_val then Inl PointerFormatException
                                    else Inr \<lparr>attrs = d, oid = Some h,
                                              size_int = int_of_bytes size_val\<rparr>))))))))"

definition from_bytes :: "bytes \<Rightarrow> error + Pointer" where
  "from_bytes b = from_file b"

text \<open>\<^verbatim>\<open>__bytes__\<close> writes the \<^verbatim>\<open>size\<close> and \<^verbatim>\<open>oid\<close> keys into \<^verbatim>\<open>self._attrs\<close> before
  it builds the output, so it returns the object as it has left it beside the result.
  With no digest the attribute access on \<^verbatim>\<open>None\<close> raises \<^verbatim>\<open>AttributeError\<close>, after the
  \<^verbatim>\<open>size\<close> key has been written.\<close>

definition Pointer_bytes :: "Pointer \<Rightarrow> (error + bytes) \<times> Pointer" where
  "Pointer_bytes self =
     (let self1 = self\<lparr>attrs := AList.update Key_SIZE (format_d (size_int self)) (attrs self)\<rparr>
      in case oid self1 of
           None \<Rightarrow> (Inl AttributeError, self1)
         | Some d \<Rightarrow>
             (case hexdigest d of
                Inl e \<Rightarrow> (Inl e, self1)
              | Inr hx \<Rightarrow>
                  (case encode_ascii (digest_name @ str_of '':'' @ hx) of
                     Inl e \<Rightarrow> (Inl e, self1)
                   | Inr oid_val \<Rightarrow>
                       (let self2 = self1\<lparr>attrs := AList.update Key_OID oid_val (attrs self1)\<rparr>;
                            items = (Key_VERSION, Version_value Pointer_version)
                                      # sort (attrs self2)
                        in (Inr (join [NL] (map (\<lambda>(k, v). join '' '' [k, v]) items) @ [NL]),
                            self2)))))"

text \<open>\<open>serialize\<close> is the value of \<^verbatim>\<open>bytes(p)\<close> alone.\<close>

definition serialize :: "Pointer \<Rightarrow> error + bytes" where
  "serialize p = fst (Pointer_bytes p)"

subsection \<open>The input format and the digest alphabet\<close>

text \<open>
  The vocabulary of the statements below. \<open>attr_line\<close> is one attribute line
  \<^verbatim>\<open>key value\n\<close>; \<open>wf_attr\<close> says that the key holds no space and no newline and the
  value no newline, so that the line reads back as this pair; \<open>pointer_text\<close> is a
  version line followed by attribute lines; \<open>store_all\<close> is the dictionary after
  storing the pairs in turn; \<open>is_hexdigit\<close> is a hexadecimal digit of either case;
  \<open>MalformedDigest\<close> collects what the constructor of \<^verbatim>\<open>SHA256\<close> raises on a bad
  argument: \<^verbatim>\<open>TypeError\<close>, or \<^verbatim>\<open>ValueError\<close> and its subclasses.
\<close>

definition attr_line :: "bytes \<times> bytes \<Rightarrow> bytes" where
  "attr_line kv = fst kv @ '' '' @ snd kv @ [NL]"

definition wf_attr :: "bytes \<times> bytes \<Rightarrow> bool" where
  "wf_attr kv = (CHR '' '' \<notin> set (fst kv) \<and> NL \<notin> set (fst kv) \<and> NL \<notin> set (snd kv))"

definition pointer_text :: "Version \<Rightarrow> (bytes \<times> bytes) list \<Rightarrow> bytes" where
  "pointer_text ver kvs =
     Key_VERSION @ '' '' @ Version_value ver @ [NL] @ concat (map attr_line kvs)"

definition store_all :: "(bytes \<times> bytes) list \<Rightarrow> dict \<Rightarrow> dict" where
  "store_all kvs d = fold (\<lambda>kv. AList.update (fst kv) (snd kv)) kvs d"

definition is_hexdigit :: "char \<Rightarrow> bool" where
  "is_hexdigit c = (c \<in> set ''0123456789abcdefABCDEF'')"


text \<open>
  \<open>finish\<close> is \<^verbatim>\<open>from_file\<close> after its loop, on the dictionary the loop has built;
  \<open>canonical_attrs\<close> is the dictionary \<^verbatim>\<open>__bytes__\<close> leaves behind; \<open>ascii\<close> says that
  every byte is below 128.
\<close>

definition finish :: "dict \<Rightarrow> error + Pointer" where
  "finish d =
     (case getitem d Key_OID of
        Inl e \<Rightarrow> Inl e
      | Inr oid_val \<Rightarrow>
          (case unpack2 (split1 CHR '':'' oid_val) of
            Inl e \<Rightarrow> Inl e
          | Inr (oid_type, oid_hash) \<Rightarrow>
              (case map_of supported_digests oid_type of
                None \<Rightarrow> Inl PointerFormatException
              | Some init \<Rightarrow>
                  (case init (Bytes oid_hash) of
                    Inl e \<Rightarrow> Inl e
                  | Inr h \<Rightarrow>
                      (case getitem d Key_SIZE of
                        Inl e \<Rightarrow> Inl e
                      | Inr size_val \<Rightarrow>
                          if \<not> isdigit size_val then Inl PointerFormatException
                          else Inr \<lparr>attrs = d, oid = Some h,
                                    size_int = int_of_bytes size_val\<rparr>)))))"

definition canonical_attrs :: "Pointer \<Rightarrow> SHA256 \<Rightarrow> dict" where
  "canonical_attrs p d =
     AList.update Key_OID (''sha256:'' @ hexsha d)
       (AList.update Key_SIZE (format_d (size_int p)) (attrs p))"

definition ascii :: "bytes \<Rightarrow> bool" where
  "ascii b = list_all (\<lambda>c. (of_char c :: nat) < 128) b"

text \<open>
  \<open>attr_lines\<close> are the lines \<^verbatim>\<open>from_file\<close> loops over, those after its first read of at
  most 256 bytes; \<open>line_key\<close> is the key of a line, what precedes its first space.
\<close>

definition attr_lines :: "bytes \<Rightarrow> bytes list" where
  "attr_lines f = iter_lines (snd (readline_n 256 f))"

definition line_key :: "bytes \<Rightarrow> bytes" where
  "line_key l = takeWhile (\<lambda>c. c \<noteq> CHR '' '') (rstrip_nl l)"

text \<open>\<open>reserialize\<close> is \<^verbatim>\<open>bytes(Pointer.from_bytes(b))\<close>: parse, then serialize.\<close>

definition reserialize :: "bytes \<Rightarrow> error + bytes" where
  "reserialize b = (case from_bytes b of Inl e \<Rightarrow> Inl e | Inr p \<Rightarrow> serialize p)"

subsection \<open>Example inputs\<close>

definition hex_example :: bytes where
  "hex_example = ''4d7a214614ab2935c943f9e0ff69d22eadbb8f32b1258daaa5e2ca24d17e2393''"

definition hex_short :: bytes where
  "hex_short = ''4d7a214614ab2935c943f9e0ff69d22eadbb8f32''"


definition version_only :: bytes where
  "version_only = pointer_text V1 []"

definition pointer_example :: bytes where
  "pointer_example =
     pointer_text V1 [(''oid'', ''sha256:'' @ hex_example), (''size'', ''12345'')]"

definition legacy_example :: bytes where
  "legacy_example =
     pointer_text PRE [(''size'', ''12345''), (''oid'', ''sha256:'' @ hex_example)]"

definition long_version :: bytes where
  "long_version = ''version '' @ replicate 248 (CHR ''x'') @ [NL]"

definition no_space_example :: bytes where
  "no_space_example = pointer_text V1 [] @ ''foo'' @ [NL]"

definition md5_example :: bytes where
  "md5_example =
     pointer_text V1 [(''oid'', ''md5:d41d8cd98f00b204e9800998ecf8427e''), (''size'', ''0'')]"

definition bad_first_line_example :: bytes where
  "bad_first_line_example =
     ''Version 1'' @ [NL] @ ''oid sha256:'' @ hex_example @ [NL] @ ''size 12345'' @ [NL]"

definition leading_zero_example :: bytes where
  "leading_zero_example =
     pointer_text V1 [(''oid'', ''sha256:'' @ hex_example), (''size'', ''012345'')]"


section \<open>Auxiliary facts\<close>

lemma NL_neq [simp]: "NL \<noteq> CHR '' ''" "CHR '' '' \<noteq> NL" "NL \<noteq> CHR '':''"
  by (simp_all add: NL_def)

lemma readline_nl: "NL \<notin> set l \<Longrightarrow> readline (l @ NL # r) = (l @ [NL], r)"
  by (induction l) auto

lemma readline_n_nl:
  "NL \<notin> set l \<Longrightarrow> length l < n \<Longrightarrow> readline_n n (l @ NL # r) = (l @ [NL], r)"
proof (induction l arbitrary: n)
  case Nil
  then show ?case by (cases n) auto
next
  case (Cons c l)
  then show ?case by (cases n) auto
qed

lemma iter_lines_Nil [simp]: "iter_lines [] = []"
  by (simp add: iter_lines.simps)

lemma iter_lines_line:
  "NL \<notin> set l \<Longrightarrow> iter_lines (l @ NL # r) = (l @ [NL]) # iter_lines r"
  by (subst iter_lines.simps) (simp add: readline_nl)

lemma rstrip_nl_id: "NL \<notin> set l \<Longrightarrow> rstrip_nl l = l"
proof -
  assume "NL \<notin> set l"
  then have "dropWhile (\<lambda>c. c = NL) (rev l) = rev l"
    by (cases "rev l") (auto simp: rev_eq_Cons_iff)
  then show ?thesis by (simp add: rstrip_nl_def)
qed

lemma rstrip_nl_snoc: "rstrip_nl (l @ [NL]) = rstrip_nl l"
  by (simp add: rstrip_nl_def)

lemma split1_at: "c \<notin> set k \<Longrightarrow> split1 c (k @ c # v) = [k, v]"
  by (induction k) (auto simp: split1_def)

lemma unpack2_pair [simp]: "unpack2 [a, b] = Inr (a, b)"
  by (simp add: unpack2_def)

lemma unpack2_single [simp]: "unpack2 [a] = Inl ValueError"
  by (simp add: unpack2_def)

lemma parse_attr_line:
  assumes wf: "wf_attr (k, v)"
  shows "unpack2 (split1 CHR '' '' (rstrip_nl (attr_line (k, v)))) = Inr (k, v)"
proof -
  have nl: "NL \<notin> set (k @ CHR '' '' # v)" using wf by (simp add: wf_attr_def)
  have "rstrip_nl (attr_line (k, v)) = rstrip_nl ((k @ CHR '' '' # v) @ [NL])"
    by (simp add: attr_line_def)
  also have "\<dots> = rstrip_nl (k @ CHR '' '' # v)" by (rule rstrip_nl_snoc)
  also have "\<dots> = k @ CHR '' '' # v" by (rule rstrip_nl_id [OF nl])
  finally show ?thesis using wf by (simp add: split1_at wf_attr_def)
qed

lemma iter_lines_attr_lines:
  "list_all wf_attr kvs \<Longrightarrow> iter_lines (concat (map attr_line kvs)) = map attr_line kvs"
proof (induction kvs)
  case Nil
  then show ?case by simp
next
  case (Cons kv kvs)
  obtain k v where kv: "kv = (k, v)" by (cases kv)
  have nl: "NL \<notin> set (k @ CHR '' '' # v)" using Cons.prems by (simp add: kv wf_attr_def)
  have "concat (map attr_line (kv # kvs)) = (k @ CHR '' '' # v) @ NL # concat (map attr_line kvs)"
    by (simp add: kv attr_line_def)
  then have "iter_lines (concat (map attr_line (kv # kvs)))
      = ((k @ CHR '' '' # v) @ [NL]) # iter_lines (concat (map attr_line kvs))"
    by (simp only: iter_lines_line [OF nl])
  moreover have "(k @ CHR '' '' # v) @ [NL] = attr_line kv" by (simp add: kv attr_line_def)
  moreover have "list_all wf_attr kvs" using Cons.prems by simp
  ultimately show ?case using Cons.IH by simp
qed

lemma read_attrs_attr_lines:
  "list_all wf_attr kvs \<Longrightarrow> read_attrs d (map attr_line kvs) = Inr (store_all kvs d)"
proof (induction kvs arbitrary: d)
  case Nil
  then show ?case by (simp add: store_all_def)
next
  case (Cons kv kvs)
  obtain k v where kv: "kv = (k, v)" by (cases kv)
  from Cons.prems have "wf_attr (k, v)" and rest: "list_all wf_attr kvs" by (simp_all add: kv)
  then show ?case using Cons.IH [OF rest] by (simp add: kv parse_attr_line store_all_def)
qed

lemma map_of_store_all:
  "map_of (store_all kvs d) k = (case map_of (rev kvs) k of Some v \<Rightarrow> Some v | None \<Rightarrow> map_of d k)"
proof (induction kvs arbitrary: d)
  case Nil
  then show ?case by (simp add: store_all_def)
next
  case (Cons kv kvs)
  have "store_all (kv # kvs) d = store_all kvs (AList.update (fst kv) (snd kv) d)"
    by (simp add: store_all_def)
  then show ?case using Cons [of "AList.update (fst kv) (snd kv) d"]
    by (cases kv) (auto simp: update_conv' map_add_def split: option.splits)
qed

lemma update_fresh: "k \<notin> fst ` set d \<Longrightarrow> AList.update k v d = d @ [(k, v)]"
  by (induction d) auto

lemma store_all_distinct:
  "distinct (map fst (d @ kvs)) \<Longrightarrow> store_all kvs d = d @ kvs"
proof (induction kvs arbitrary: d)
  case Nil
  then show ?case by (simp add: store_all_def)
next
  case (Cons kv kvs)
  have fresh: "fst kv \<notin> fst ` set d" using Cons.prems by auto
  have "store_all (kv # kvs) d = store_all kvs (d @ [kv])"
    by (simp add: store_all_def update_fresh [OF fresh])
  moreover have "distinct (map fst ((d @ [kv]) @ kvs))" using Cons.prems by simp
  ultimately show ?case using Cons.IH [of "d @ [kv]"] by simp
qed

lemma join_lines:
  "xs \<noteq> [] \<Longrightarrow> join [NL] (map f xs) @ [NL] = concat (map (\<lambda>x. f x @ [NL]) xs)"
  by (induction xs rule: induct_list012) auto

lemma char_eq_iff_nat: "c = d \<longleftrightarrow> (of_char c :: nat) = of_char d"
  by (simp add: of_char_eq_iff)

lemma hexval_Some_iff: "hexval c \<noteq> None \<longleftrightarrow> is_hexdigit c"
proof -
  define n where "n = (of_char c :: nat)"
  have "is_hexdigit c \<longleftrightarrow> n \<in> {48, 49, 50, 51, 52, 53, 54, 55, 56, 57, 97, 98, 99, 100, 101, 102,
                   65, 66, 67, 68, 69, 70}"
    by (simp add: is_hexdigit_def char_eq_iff_nat [of c] n_def)
  also have "\<dots> \<longleftrightarrow> (48 \<le> n \<and> n \<le> 57) \<or> (97 \<le> n \<and> n \<le> 102) \<or> (65 \<le> n \<and> n \<le> 70)"
    by (simp only: insert_iff empty_iff) arith
  also have "\<dots> \<longleftrightarrow> hexval c \<noteq> None"
    by (simp add: hexval_def n_def Let_def)
  finally show ?thesis by simp
qed

lemma hexval_less: "hexval c = Some x \<Longrightarrow> x < 16"
  by (auto simp: hexval_def Let_def split: if_splits)

lemma hexdigit_ascii: "is_hexdigit c \<Longrightarrow> (of_char c :: nat) < 128"
  by (auto simp: is_hexdigit_def)

lemma hexdigit_not_NL: "is_hexdigit c \<Longrightarrow> c \<noteq> NL"
  by (auto simp: is_hexdigit_def NL_def)

lemma unhexlify_ok:
  "list_all is_hexdigit b \<Longrightarrow> even (length b) \<Longrightarrow>
   \<exists>raw. unhexlify b = Inr raw \<and> 2 * length raw = length b"
proof (induction b rule: unhexlify.induct)
  case 1
  then show ?case by simp
next
  case (2 a)
  then show ?case by simp
next
  case (3 a b cs)
  from "3.prems" obtain x y where xy: "hexval a = Some x" "hexval b = Some y"
    using hexval_Some_iff by fastforce
  from "3.prems" have "list_all is_hexdigit cs" "even (length cs)" by simp_all
  with "3.IH" [OF refl xy(1) xy(2)] obtain raw
    where "unhexlify cs = Inr raw" "2 * length raw = length cs" by blast
  then show ?case by (simp add: xy)
qed

lemma unhexlify_bad:
  "\<not> list_all is_hexdigit b \<Longrightarrow> unhexlify b = Inl BinasciiError"
proof (induction b rule: unhexlify.induct)
  case 1
  then show ?case by simp
next
  case (2 a)
  then show ?case by simp
next
  case (3 a b cs)
  show ?case
  proof (cases "is_hexdigit a \<and> is_hexdigit b")
    case True
    then obtain x y where xy: "hexval a = Some x" "hexval b = Some y"
      using hexval_Some_iff by fastforce
    from True "3.prems" have "\<not> list_all is_hexdigit cs" by simp
    with "3.IH" [OF refl xy(1) xy(2)] show ?thesis by (simp add: xy)
  next
    case False
    then have "hexval a = None \<or> hexval b = None" using hexval_Some_iff by blast
    then show ?thesis by (auto split: option.splits)
  qed
qed

lemma unhexlify_Inr: "unhexlify b = Inr raw \<Longrightarrow> list_all is_hexdigit b"
  using unhexlify_bad [of b] by auto

lemma unhexlify_error: "unhexlify b = Inl e \<Longrightarrow> e = BinasciiError"
  by (induction b arbitrary: e rule: unhexlify.induct) (auto split: option.splits sum.splits)

lemma decode_ascii_ok:
  "list_all (\<lambda>c. (of_char c :: nat) < 128) b \<Longrightarrow> decode_ascii b = Inr (str_of b)"
  by (simp add: decode_ascii_def str_of_def)

lemma encode_ascii_str_of:
  "list_all (\<lambda>c. (of_char c :: nat) < 128) b \<Longrightarrow> encode_ascii (str_of b) = Inr b"
  by (simp add: encode_ascii_def str_of_def list_all_iff comp_def)


lemma SHA256_init_Bytes:
  "SHA256_init (Bytes b) =
     (if length b \<noteq> 64 then Inl ValueError
      else case unhexlify b of Inl e \<Rightarrow> Inl e | Inr raw \<Rightarrow> Inr \<lparr>hexsha = b, sha = raw\<rparr>)"
  by (simp add: SHA256_init_def)



lemma hex_example_ok: "length hex_example = 64" "list_all is_hexdigit hex_example"
  by (simp_all add: hex_example_def is_hexdigit_def)

lemma readline_n_Nil [simp]: "readline_n n [] = ([], [])"
  by (cases n) simp_all

lemma from_file_Nil: "from_file [] = Inr Pointer_init"
  by (simp add: from_file_def)

lemma from_file_finish:
  "from_file f =
     (case readline_n 256 f of (line, rest) \<Rightarrow>
        if line = [] then Inr Pointer_init
        else (case verify_version line of
          Inl e \<Rightarrow> Inl e
        | Inr ok \<Rightarrow>
            if \<not> truthy ok then Inl VersionUnsupportedException
            else (case read_attrs [] (iter_lines rest) of
              Inl e \<Rightarrow> Inl e
            | Inr d \<Rightarrow> finish d)))"
  unfolding from_file_def finish_def ..

lemma readline_n_nonempty: "f \<noteq> [] \<Longrightarrow> 0 < n \<Longrightarrow> fst (readline_n n f) \<noteq> []"
  by (cases f; cases n) (auto split: prod.splits)

lemma from_file_Inr:
  assumes "from_file f = Inr p" "f \<noteq> []"
  shows "\<exists>d. read_attrs [] (iter_lines (snd (readline_n 256 f))) = Inr d \<and> finish d = Inr p"
proof -
  obtain line rest where lr: "readline_n 256 f = (line, rest)" by (cases "readline_n 256 f")
  have "line \<noteq> []" using readline_n_nonempty [OF assms(2), of 256] lr by simp
  then show ?thesis using assms(1) lr
    by (auto simp: from_file_finish split: sum.splits if_splits)
qed

lemma version_line_facts:
  "NL \<notin> set (Version_value ver)" "length (Version_value ver) < 248"
  "Version_verify (Version_value ver)"
  by (cases ver; simp add: NL_def Version_verify_def)+

lemma verify_version_line:
  assumes "NL \<notin> set v"
  shows "verify_version (Key_VERSION @ CHR '' '' # v @ [NL]) = Inr (Bool (Version_verify v))"
proof -
  have nl: "NL \<notin> set (Key_VERSION @ CHR '' '' # v)"
    using assms by (simp add: Key_VERSION_def NL_def)
  have "rstrip_nl (Key_VERSION @ CHR '' '' # v @ [NL])
      = rstrip_nl ((Key_VERSION @ CHR '' '' # v) @ [NL])" by simp
  also have "\<dots> = rstrip_nl (Key_VERSION @ CHR '' '' # v)" by (rule rstrip_nl_snoc)
  also have "\<dots> = Key_VERSION @ CHR '' '' # v" by (rule rstrip_nl_id [OF nl])
  finally have r: "rstrip_nl (Key_VERSION @ CHR '' '' # v @ [NL]) = Key_VERSION @ CHR '' '' # v" .
  have s: "split1 CHR '' '' (Key_VERSION @ CHR '' '' # v) = [Key_VERSION, v]"
    by (rule split1_at) (simp add: Key_VERSION_def)
  show ?thesis
    by (simp add: verify_version_def r s endswith_nl_def)
qed

lemma readline_n_version_line:
  assumes "NL \<notin> set v" "length v < 248"
  shows "readline_n 256 (Key_VERSION @ CHR '' '' # v @ NL # rest)
       = (Key_VERSION @ CHR '' '' # v @ [NL], rest)"
proof -
  have nl: "NL \<notin> set (Key_VERSION @ CHR '' '' # v)"
    using assms by (simp add: Key_VERSION_def NL_def)
  have len: "length (Key_VERSION @ CHR '' '' # v) < 256"
    using assms by (simp add: Key_VERSION_def)
  show ?thesis using readline_n_nl [OF nl len, of rest] by simp
qed

lemma from_file_version_line:
  assumes "NL \<notin> set v" "length v < 248"
  shows "from_file (Key_VERSION @ CHR '' '' # v @ NL # rest) =
     (if Version_verify v
      then (case read_attrs [] (iter_lines rest) of Inl e \<Rightarrow> Inl e | Inr d \<Rightarrow> finish d)
      else Inl VersionUnsupportedException)"
  by (simp add: from_file_finish readline_n_version_line [OF assms]
      verify_version_line [OF assms(1)])

lemma pointer_text_eq:
  "pointer_text ver kvs
     = Key_VERSION @ CHR '' '' # Version_value ver @ NL # concat (map attr_line kvs)"
  by (simp add: pointer_text_def)

lemma from_file_pointer_text:
  assumes "list_all wf_attr kvs"
  shows "from_file (pointer_text ver kvs) = finish (store_all kvs [])"
  by (simp add: pointer_text_eq from_file_version_line version_line_facts
      iter_lines_attr_lines [OF assms] read_attrs_attr_lines [OF assms])

lemma Key_distinct [simp]:
  "Key_OID \<noteq> Key_SIZE" "Key_SIZE \<noteq> Key_OID" "Key_VERSION \<noteq> Key_OID"
  "Key_VERSION \<noteq> Key_SIZE" "Key_OID \<noteq> Key_VERSION" "Key_SIZE \<noteq> Key_VERSION"
  by (simp_all add: Key_OID_def Key_SIZE_def Key_VERSION_def)

lemma split1_Inr:
  "unpack2 (split1 c s) = Inr (a, b) \<Longrightarrow> s = a @ c # b \<and> c \<notin> set a"
proof -
  assume h: "unpack2 (split1 c s) = Inr (a, b)"
  then have c: "c \<in> set s" by (auto simp: split1_def split: if_splits)
  with h have a: "a = takeWhile (\<lambda>x. x \<noteq> c) s" and b: "b = tl (dropWhile (\<lambda>x. x \<noteq> c) s)"
    by (simp_all add: split1_def)
  from c have "dropWhile (\<lambda>x. x \<noteq> c) s \<noteq> []" by (simp add: dropWhile_eq_Nil_conv)
  moreover have "hd (dropWhile (\<lambda>x. x \<noteq> c) s) = c"
    using hd_dropWhile [OF calculation] by simp
  ultimately have "dropWhile (\<lambda>x. x \<noteq> c) s = c # b" unfolding b by (metis list.collapse)
  then have "s = a @ c # b" unfolding a by (metis takeWhile_dropWhile_id)
  moreover have "c \<notin> set a" unfolding a by (auto dest: set_takeWhileD)
  ultimately show ?thesis by simp
qed

lemma split1_no_sep: "c \<notin> set s \<Longrightarrow> unpack2 (split1 c s) = Inl ValueError"
  by (simp add: split1_def)

lemma split1_error: "unpack2 (split1 c s) = Inl e \<Longrightarrow> e = ValueError \<and> c \<notin> set s"
  by (auto simp: split1_def split: if_splits)

lemma getitem_simps:
  "map_of d k = None \<Longrightarrow> getitem d k = Inl KeyError"
  "map_of d k = Some v \<Longrightarrow> getitem d k = Inr v"
  by (simp_all add: getitem_def)

lemma finish_no_oid: "map_of d Key_OID = None \<Longrightarrow> finish d = Inl KeyError"
  by (simp add: finish_def getitem_simps)

lemma finish_bad_tag:
  assumes "map_of d Key_OID = Some (tag @ CHR '':'' # h)" "CHR '':'' \<notin> set tag"
    "tag \<noteq> ''sha256''"
  shows "finish d = Inl PointerFormatException"
  using assms
  by (simp add: finish_def getitem_simps split1_at supported_digests_def)

lemma finish_sha256:
  assumes "map_of d Key_OID = Some (''sha256:'' @ h)"
  shows "finish d =
     (case SHA256_init (Bytes h) of
        Inl e \<Rightarrow> Inl e
      | Inr dg \<Rightarrow>
          (case getitem d Key_SIZE of
             Inl e \<Rightarrow> Inl e
           | Inr size_val \<Rightarrow>
               if \<not> isdigit size_val then Inl PointerFormatException
               else Inr \<lparr>attrs = d, oid = Some dg, size_int = int_of_bytes size_val\<rparr>))"
proof -
  have "split1 CHR '':'' (''sha256'' @ CHR '':'' # h) = [''sha256'', h]"
    by (rule split1_at) simp
  then have s: "split1 CHR '':'' (''sha256:'' @ h) = [''sha256'', h]" by simp
  show ?thesis
    unfolding finish_def getitem_simps(2) [OF assms] sum.case s
    by (simp add: supported_digests_def)
qed

lemma finish_Inr:
  assumes "finish d = Inr p"
  shows "\<exists>h raw sv. map_of d Key_OID = Some (''sha256:'' @ h) \<and> length h = 64 \<and>
      list_all is_hexdigit h \<and> unhexlify h = Inr raw \<and>
      map_of d Key_SIZE = Some sv \<and> isdigit sv \<and>
      p = \<lparr>attrs = d, oid = Some \<lparr>hexsha = h, sha = raw\<rparr>, size_int = int_of_bytes sv\<rparr>"
proof -
  from assms obtain ov where ov: "map_of d Key_OID = Some ov"
    by (cases "map_of d Key_OID") (simp_all add: finish_no_oid)
  from assms ov obtain t h where th: "unpack2 (split1 CHR '':'' ov) = Inr (t, h)"
    by (cases "unpack2 (split1 CHR '':'' ov)") (auto simp: finish_def getitem_simps)
  from assms ov th have t: "t = ''sha256''"
    by (auto simp: finish_def getitem_simps supported_digests_def split: if_splits)
  from split1_Inr [OF th] t have ov': "ov = ''sha256:'' @ h" by simp
  note fin = assms [unfolded finish_sha256 [OF ov [unfolded ov']]]
  from fin obtain dg where dg: "SHA256_init (Bytes h) = Inr dg"
    by (cases "SHA256_init (Bytes h)") simp_all
  from dg have len: "length h = 64" by (simp add: SHA256_init_Bytes split: if_splits)
  from dg len obtain raw where raw: "unhexlify h = Inr raw" "dg = \<lparr>hexsha = h, sha = raw\<rparr>"
    by (cases "unhexlify h") (auto simp: SHA256_init_Bytes)
  from fin dg obtain sv where sv: "map_of d Key_SIZE = Some sv"
    by (cases "map_of d Key_SIZE") (simp_all add: getitem_simps)
  from fin dg sv have "isdigit sv"
    and "p = \<lparr>attrs = d, oid = Some dg, size_int = int_of_bytes sv\<rparr>"
    by (auto simp: getitem_simps split: if_splits)
  then show ?thesis using ov ov' len raw sv unhexlify_Inr [OF raw(1)] by auto
qed

lemma finish_ok:
  assumes "map_of d Key_OID = Some (''sha256:'' @ h)" "length h = 64" "list_all is_hexdigit h"
    "map_of d Key_SIZE = Some sv" "isdigit sv"
  shows "\<exists>raw. unhexlify h = Inr raw \<and>
      finish d = Inr \<lparr>attrs = d, oid = Some \<lparr>hexsha = h, sha = raw\<rparr>,
                     size_int = int_of_bytes sv\<rparr>"
proof -
  from unhexlify_ok [OF assms(3)] assms(2) obtain raw where "unhexlify h = Inr raw" by auto
  then show ?thesis using assms
    by (simp add: finish_sha256 SHA256_init_Bytes getitem_simps)
qed


lemma read_attrs_bad_line:
  assumes "l \<in> set ls" "CHR '' '' \<notin> set l"
  shows "read_attrs d ls = Inl ValueError"
  using assms
proof (induction ls arbitrary: d)
  case Nil
  then show ?case by simp
next
  case (Cons x ls)
  show ?case
  proof (cases "unpack2 (split1 CHR '' '' (rstrip_nl x))")
    case (Inl e)
    then show ?thesis using split1_error [OF Inl] by simp
  next
    case (Inr kv)
    then obtain k v where kv: "unpack2 (split1 CHR '' '' (rstrip_nl x)) = Inr (k, v)"
      by (cases kv) simp
    from split1_Inr [OF kv] have "CHR '' '' \<in> set (rstrip_nl x)" by simp
    then have "CHR '' '' \<in> set x"
      by (auto simp: rstrip_nl_def dest: set_dropWhileD)
    with Cons.prems have "l \<in> set ls" by auto
    with Cons.IH Cons.prems(2) show ?thesis by (simp add: kv)
  qed
qed

lemma map_of_store_all_Nil: "map_of (store_all kvs []) k = map_of (rev kvs) k"
  by (simp add: map_of_store_all split: option.splits)


lemma line_key_split:
  "unpack2 (split1 CHR '' '' (rstrip_nl l)) = Inr (k, v) \<Longrightarrow> line_key l = k"
  by (auto simp: line_key_def split1_def split: if_splits)

lemma read_attrs_keys:
  assumes "read_attrs d ls = Inr d'" "map_of d' k \<noteq> None"
  shows "map_of d k \<noteq> None \<or> (\<exists>l\<in>set ls. line_key l = k)"
  using assms
proof (induction ls arbitrary: d)
  case Nil
  then show ?case by simp
next
  case (Cons x ls)
  from Cons.prems(1) obtain a b where ab: "unpack2 (split1 CHR '' '' (rstrip_nl x)) = Inr (a, b)"
    by (cases "unpack2 (split1 CHR '' '' (rstrip_nl x))") auto
  with Cons.prems(1) have "read_attrs (AList.update a b d) ls = Inr d'" by simp
  from Cons.IH [OF this Cons.prems(2)]
  have "map_of (AList.update a b d) k \<noteq> None \<or> (\<exists>l\<in>set ls. line_key l = k)" .
  then show ?case using line_key_split [OF ab]
    by (auto simp: update_conv' split: if_splits)
qed

lemma from_file_no_oid_line:
  assumes "f \<noteq> []" "\<forall>l\<in>set (attr_lines f). line_key l \<noteq> Key_OID"
  shows "\<exists>e. from_file f = Inl e"
proof (cases "from_file f")
  case (Inl e)
  then show ?thesis by simp
next
  case (Inr p)
  from from_file_Inr [OF Inr assms(1)] obtain d
    where d: "read_attrs [] (attr_lines f) = Inr d" "finish d = Inr p"
    by (auto simp: attr_lines_def)
  from finish_Inr [OF d(2)] have "map_of d Key_OID \<noteq> None" by auto
  from read_attrs_keys [OF d(1) this] assms(2) show ?thesis by simp
qed


lemma attr_lines_version_only: "attr_lines version_only = []"
  unfolding attr_lines_def version_only_def pointer_text_eq
  using readline_n_version_line [of "Version_value V1" "[]"]
  by (simp add: NL_def)

lemma join_pair: "join sep [k, v] = k @ sep @ v"
  by simp

lemma output_lines:
  "join [NL] (map (\<lambda>(k, v). join '' '' [k, v]) (x # xs)) @ [NL]
     = concat (map attr_line (x # xs))"
proof -
  have "join [NL] (map (\<lambda>(k, v). join '' '' [k, v]) (x # xs)) @ [NL]
      = concat (map (\<lambda>kv. (\<lambda>(k, v). join '' '' [k, v]) kv @ [NL]) (x # xs))"
    by (rule join_lines) simp
  also have "(\<lambda>kv. (\<lambda>(k, v). join '' '' [k, v]) kv @ [NL]) = attr_line"
    by (auto simp: attr_line_def fun_eq_iff)
  finally show ?thesis .
qed

lemma ascii_hexdigits: "list_all is_hexdigit h \<Longrightarrow> ascii h"
  using hexdigit_ascii by (auto simp: ascii_def list_all_iff)

lemma oid_value_encode:
  assumes "ascii h"
  shows "encode_ascii (digest_name @ str_of '':'' @ str_of h) = Inr (''sha256:'' @ h)"
proof -
  have "digest_name @ str_of '':'' @ str_of h = str_of (''sha256:'' @ h)"
    by (simp add: digest_name_def str_of_def)
  moreover have "list_all (\<lambda>c. (of_char c :: nat) < 128) (''sha256:'' @ h)"
    using assms by (simp add: ascii_def)
  ultimately show ?thesis by (simp only: encode_ascii_str_of)
qed

lemma Pointer_bytes_Some:
  assumes "oid p = Some d" "ascii (hexsha d)"
  shows "Pointer_bytes p
     = (Inr (pointer_text V1 (sort (canonical_attrs p d))), p\<lparr>attrs := canonical_attrs p d\<rparr>)"
proof -
  have hx: "hexdigest d = Inr (str_of (hexsha d))"
    using assms(2) by (simp add: hexdigest_def ascii_def decode_ascii_ok)
  have out: "join [NL] (map (\<lambda>(k, v). join '' '' [k, v])
        ((Key_VERSION, Version_value V1) # sort (canonical_attrs p d))) @ [NL]
      = pointer_text V1 (sort (canonical_attrs p d))"
    unfolding output_lines by (simp add: pointer_text_def attr_line_def)
  show ?thesis
    unfolding Pointer_bytes_def Let_def
    using out
    by (simp add: assms(1) hx oid_value_encode [OF assms(2)] Pointer_version_def
        canonical_attrs_def del: join.simps)
qed

lemma serialize_Some:
  assumes "oid p = Some d" "ascii (hexsha d)"
  shows "serialize p = Inr (pointer_text V1 (sort (canonical_attrs p d)))"
  by (simp add: serialize_def Pointer_bytes_Some [OF assms])

lemma serialize_None: "oid p = None \<Longrightarrow> serialize p = Inl AttributeError"
  by (simp add: serialize_def Pointer_bytes_def Let_def)

lemma of_char_digit: "d < 10 \<Longrightarrow> (of_char (char_of (48 + d) :: char) :: nat) = 48 + d"
  by simp

lemma isdigit_digits: "isdigit (digits n)"
proof (induction n rule: digits.induct)
  case (1 n)
  show ?case
  proof (cases "n < 10")
    case True
    then show ?thesis by (simp add: digits.simps [of n] isdigit_def)
  next
    case False
    have "n mod 10 < 10" by simp
    then have "(of_char (char_of (48 + n mod 10) :: char) :: nat) = 48 + n mod 10"
      by (rule of_char_digit)
    with False "1.IH" show ?thesis
      by (simp add: digits.simps [of n] isdigit_def)
  qed
qed

lemma int_of_bytes_snoc:
  "int_of_bytes (s @ [c]) = 10 * int_of_bytes s + (int (of_char c) - 48)"
  by (simp add: int_of_bytes_def)

lemma int_of_bytes_digits: "int_of_bytes (digits n) = int n"
proof (induction n rule: digits.induct)
  case (1 n)
  show ?case
  proof (cases "n < 10")
    case True
    then show ?thesis by (simp add: digits.simps [of n] int_of_bytes_def)
  next
    case False
    have "n mod 10 < 10" by simp
    then have c: "(of_char (char_of (48 + n mod 10) :: char) :: nat) = 48 + n mod 10"
      by (rule of_char_digit)
    have "int_of_bytes (digits n) = 10 * int (n div 10) + int (n mod 10)"
      using False "1.IH" by (simp add: digits.simps [of n] int_of_bytes_snoc c)
    also have "\<dots> = int n" by presburger
    finally show ?thesis .
  qed
qed

lemma isdigit_no_NL: "isdigit s \<Longrightarrow> NL \<notin> set s"
  by (auto simp: isdigit_def list_all_iff NL_def)

lemma int_of_bytes_nonneg_aux:
  "list_all (\<lambda>c. 48 \<le> (of_char c :: nat)) s \<Longrightarrow> 0 \<le> a \<Longrightarrow>
   0 \<le> fold (\<lambda>c acc. 10 * acc + (int (of_char c) - 48)) s a"
  by (induction s arbitrary: a) auto

lemma int_of_bytes_nonneg: "isdigit s \<Longrightarrow> 0 \<le> int_of_bytes s"
  unfolding int_of_bytes_def
  by (rule int_of_bytes_nonneg_aux) (auto simp: isdigit_def list_all_iff)

lemma format_d_nonneg: "0 \<le> n \<Longrightarrow> format_d n = digits (nat n)"
  by (simp add: format_d_def)

lemma format_d_roundtrip:
  "0 \<le> n \<Longrightarrow> isdigit (format_d n) \<and> int_of_bytes (format_d n) = n"
  by (simp add: format_d_nonneg isdigit_digits int_of_bytes_digits)


lemma set_update_cases:
  "(a, b) \<in> set (AList.update k v d) \<Longrightarrow> (a, b) = (k, v) \<or> (a, b) \<in> set d"
  by (induction d) (auto split: if_splits)

lemma wf_attr_update:
  "list_all wf_attr d \<Longrightarrow> wf_attr (k, v) \<Longrightarrow> list_all wf_attr (AList.update k v d)"
  unfolding list_all_iff using set_update_cases by fastforce

lemma rstrip_nl_last: "l \<noteq> [] \<Longrightarrow> last l \<noteq> NL \<Longrightarrow> rstrip_nl l = l"
proof -
  assume "l \<noteq> []" "last l \<noteq> NL"
  then have "dropWhile (\<lambda>c. c = NL) (rev l) = rev l"
    by (cases "rev l") (auto simp: last_rev [symmetric] simp del: last_rev)
  then show ?thesis by (simp add: rstrip_nl_def)
qed

lemma rstrip_nl_line:
  assumes "NL \<notin> set (butlast l)"
  shows "NL \<notin> set (rstrip_nl l)"
proof (cases l rule: rev_cases)
  case Nil
  then show ?thesis by (simp add: rstrip_nl_def)
next
  case (snoc ys y)
  with assms have ys: "NL \<notin> set ys" by simp
  show ?thesis
  proof (cases "y = NL")
    case True
    then show ?thesis using ys by (simp add: snoc rstrip_nl_snoc rstrip_nl_id)
  next
    case False
    then have "rstrip_nl l = l" by (intro rstrip_nl_last) (simp_all add: snoc)
    then show ?thesis using ys False by (simp add: snoc)
  qed
qed

lemma readline_butlast: "readline f = (l, r) \<Longrightarrow> NL \<notin> set (butlast l)"
  by (induction f arbitrary: l r) (auto split: if_splits prod.splits)

lemma iter_lines_butlast: "l \<in> set (iter_lines f) \<Longrightarrow> NL \<notin> set (butlast l)"
proof (induction f rule: iter_lines.induct)
  case (1 f)
  obtain line rest where lr: "readline f = (line, rest)" by (cases "readline f")
  show ?case
  proof (cases "line = []")
    case True
    with lr "1.prems" show ?thesis by (simp add: iter_lines.simps [of f])
  next
    case False
    with lr "1.prems" have "l = line \<or> l \<in> set (iter_lines rest)"
      by (simp add: iter_lines.simps [of f])
    then show ?thesis
    proof
      assume "l = line"
      then show ?thesis using readline_butlast [OF lr] by simp
    next
      assume "l \<in> set (iter_lines rest)"
      then show ?thesis using "1.IH" [OF lr [symmetric] False] by simp
    qed
  qed
qed

lemma read_attrs_wf:
  assumes "read_attrs d ls = Inr d'" "\<forall>l\<in>set ls. NL \<notin> set (butlast l)"
    "list_all wf_attr d" "distinct (map fst d)"
  shows "list_all wf_attr d' \<and> distinct (map fst d')"
  using assms
proof (induction ls arbitrary: d)
  case Nil
  then show ?case by simp
next
  case (Cons x ls)
  from Cons.prems(1) obtain a b where ab: "unpack2 (split1 CHR '' '' (rstrip_nl x)) = Inr (a, b)"
    by (cases "unpack2 (split1 CHR '' '' (rstrip_nl x))") auto
  with Cons.prems(1) have r: "read_attrs (AList.update a b d) ls = Inr d'" by simp
  from Cons.prems(2) have "NL \<notin> set (rstrip_nl x)" by (simp add: rstrip_nl_line)
  with split1_Inr [OF ab] have "wf_attr (a, b)" by (auto simp: wf_attr_def)
  then have w: "list_all wf_attr (AList.update a b d)"
    using Cons.prems(3) by (simp add: wf_attr_update)
  have di: "distinct (map fst (AList.update a b d))"
    using Cons.prems(4) by (rule distinct_update)
  from Cons.IH [OF r _ w di] Cons.prems(2) show ?case by simp
qed

lemma read_attrs_stores:
  assumes "read_attrs d ls = Inr d'" "l \<in> set ls \<or> map_of d k \<noteq> None" "l \<in> set ls \<longrightarrow> line_key l = k"
  shows "map_of d' k \<noteq> None"
  using assms
proof (induction ls arbitrary: d)
  case Nil
  then show ?case by simp
next
  case (Cons x ls)
  from Cons.prems(1) obtain a b where ab: "unpack2 (split1 CHR '' '' (rstrip_nl x)) = Inr (a, b)"
    by (cases "unpack2 (split1 CHR '' '' (rstrip_nl x))") auto
  with Cons.prems(1) have r: "read_attrs (AList.update a b d) ls = Inr d'" by simp
  show ?case
  proof (cases "l \<in> set ls")
    case True
    with Cons.prems(3) show ?thesis using Cons.IH [OF r] by simp
  next
    case False
    have "map_of (AList.update a b d) k \<noteq> None"
    proof (cases "l = x")
      case True
      with Cons.prems(3) line_key_split [OF ab] have "a = k" by simp
      then show ?thesis by (simp add: update_conv')
    next
      case False
      with \<open>l \<notin> set ls\<close> Cons.prems(2) have "map_of d k \<noteq> None" by simp
      then show ?thesis by (simp add: update_conv')
    qed
    then show ?thesis using Cons.IH [OF r] Cons.prems(3) by simp
  qed
qed

lemma from_file_facts:
  assumes "from_file f = Inr p" "f \<noteq> []"
  shows "\<exists>d h raw sv. read_attrs [] (attr_lines f) = Inr d \<and>
      map_of d Key_OID = Some (''sha256:'' @ h) \<and> length h = 64 \<and>
      list_all is_hexdigit h \<and> unhexlify h = Inr raw \<and>
      map_of d Key_SIZE = Some sv \<and> isdigit sv \<and>
      list_all wf_attr d \<and> distinct (map fst d) \<and>
      p = \<lparr>attrs = d, oid = Some \<lparr>hexsha = h, sha = raw\<rparr>, size_int = int_of_bytes sv\<rparr>"
proof -
  from from_file_Inr [OF assms] obtain d
    where d: "read_attrs [] (attr_lines f) = Inr d" "finish d = Inr p"
    by (auto simp: attr_lines_def)
  have "\<forall>l\<in>set (attr_lines f). NL \<notin> set (butlast l)"
    by (simp add: attr_lines_def iter_lines_butlast)
  from read_attrs_wf [OF d(1) this] have "list_all wf_attr d \<and> distinct (map fst d)" by simp
  with finish_Inr [OF d(2)] d(1) show ?thesis by blast
qed

lemma sorted_pairs_keys: "sorted (kvs :: (bytes \<times> bytes) list) \<Longrightarrow> sorted (map fst kvs)"
proof -
  assume "sorted kvs"
  then have "sorted_wrt (\<lambda>x y. fst x \<le> fst y) kvs"
    by (rule sorted_wrt_mono_rel [rotated]) (auto simp: less_eq_prod_def)
  then show ?thesis by (simp add: sorted_map)
qed

lemma sorted_keys_pairs:
  assumes "sorted (map fst kvs)" "distinct (map fst kvs)"
  shows "sorted (kvs :: (bytes \<times> bytes) list)"
proof -
  from assms have "sorted_wrt (<) (map fst kvs)" by (simp add: strict_sorted_iff)
  then have "sorted_wrt (\<lambda>x y. fst x < fst y) kvs" by (simp add: sorted_wrt_map)
  then show ?thesis
    by (rule sorted_wrt_mono_rel [rotated]) (auto simp: less_eq_prod_def)
qed

lemma sort_keys:
  fixes d :: dict
  assumes "distinct (map fst d)"
  shows "sorted (map fst (sort d))" "distinct (map fst (sort d))" "set (sort d) = set d"
    "map_of (sort d) = map_of d"
proof -
  show "sorted (map fst (sort d))" by (rule sorted_pairs_keys) simp
  show s: "set (sort d) = set d" by simp
  from assms show di: "distinct (map fst (sort d))" by (simp add: distinct_map)
  from assms di s show "map_of (sort d) = map_of d" by (simp add: map_of_inject_set)
qed

lemma sort_sorted: "sorted (kvs :: (bytes \<times> bytes) list) \<Longrightarrow> sort kvs = kvs"
  by (simp add: sort_key_id_if_sorted)

lemma canonical_attrs_facts:
  assumes "distinct (map fst (attrs p))"
  shows "distinct (map fst (canonical_attrs p d))"
    "fst ` set (canonical_attrs p d) = {Key_OID, Key_SIZE} \<union> fst ` set (attrs p)"
    "map_of (canonical_attrs p d)
       = (map_of (attrs p))(Key_SIZE \<mapsto> format_d (size_int p),
                            Key_OID \<mapsto> ''sha256:'' @ hexsha d)"
  using assms
  by (auto simp: canonical_attrs_def distinct_update dom_update update_conv' simp del: append.simps)

lemma canonical_attrs_wf:
  assumes "list_all wf_attr (attrs p)" "list_all is_hexdigit (hexsha d)" "0 \<le> size_int p"
  shows "list_all wf_attr (canonical_attrs p d)"
proof -
  have "NL \<notin> set (hexsha d)" using assms(2) hexdigit_not_NL by (auto simp: list_all_iff)
  then have o: "wf_attr (Key_OID, ''sha256:'' @ hexsha d)"
    by (simp add: wf_attr_def Key_OID_def NL_def)
  have "NL \<notin> set (format_d (size_int p))"
    using format_d_roundtrip [OF assms(3)] by (simp add: isdigit_no_NL)
  then have s: "wf_attr (Key_SIZE, format_d (size_int p))"
    by (simp add: wf_attr_def Key_SIZE_def NL_def)
  show ?thesis unfolding canonical_attrs_def
    by (intro wf_attr_update assms(1) o s)
qed

lemma readline_pointer_text:
  "readline (pointer_text ver kvs)
     = (Key_VERSION @ CHR '' '' # Version_value ver @ [NL], concat (map attr_line kvs))"
proof -
  have "NL \<notin> set Key_VERSION" by (simp add: Key_VERSION_def NL_def)
  then have "NL \<notin> set (Key_VERSION @ CHR '' '' # Version_value ver)"
    by (simp add: version_line_facts)
  from readline_nl [OF this, of "concat (map attr_line kvs)"] show ?thesis
    by (simp add: pointer_text_eq)
qed

lemma Version_value_inj: "Version_value a = Version_value b \<longleftrightarrow> a = b"
  by (cases a; cases b) simp_all

lemma canonical_fixpoint:
  assumes wf: "list_all wf_attr kvs"
    and so: "sorted (map fst kvs)" and di: "distinct (map fst kvs)"
    and o: "map_of kvs Key_OID = Some (''sha256:'' @ h)"
    and h: "length h = 64" "list_all is_hexdigit h"
    and s: "map_of kvs Key_SIZE = Some (format_d n)" and n: "0 \<le> n"
  shows "\<exists>raw. unhexlify h = Inr raw \<and>
      from_file (pointer_text ver kvs)
        = Inr \<lparr>attrs = kvs, oid = Some \<lparr>hexsha = h, sha = raw\<rparr>, size_int = n\<rparr> \<and>
      serialize \<lparr>attrs = kvs, oid = Some \<lparr>hexsha = h, sha = raw\<rparr>, size_int = n\<rparr>
        = Inr (pointer_text V1 kvs)"
proof -
  have st: "store_all kvs [] = kvs" using store_all_distinct [of "[]" kvs] di by simp
  from format_d_roundtrip [OF n] have dg: "isdigit (format_d n)" "int_of_bytes (format_d n) = n"
    by simp_all
  from finish_ok [OF o h s dg(1)] obtain raw where raw: "unhexlify h = Inr raw"
    and fin: "finish kvs = Inr \<lparr>attrs = kvs, oid = Some \<lparr>hexsha = h, sha = raw\<rparr>, size_int = n\<rparr>"
    by (auto simp: dg(2))
  let ?d = "\<lparr>hexsha = h, sha = raw\<rparr>"
  let ?p = "\<lparr>attrs = kvs, oid = Some ?d, size_int = n\<rparr>"
  have parse: "from_file (pointer_text ver kvs) = Inr ?p"
    by (simp add: from_file_pointer_text [OF wf] st fin)
  have "AList.update Key_SIZE (format_d n) kvs = kvs" by (rule update_triv [OF s])
  moreover have "AList.update Key_OID (''sha256:'' @ h) kvs = kvs" by (rule update_triv [OF o])
  ultimately have ca: "canonical_attrs ?p ?d = kvs" by (simp add: canonical_attrs_def)
  have "sort kvs = kvs" by (rule sort_sorted) (rule sorted_keys_pairs [OF so di])
  moreover have "ascii (hexsha ?d)" using h(2) by (simp add: ascii_hexdigits)
  ultimately have "serialize ?p = Inr (pointer_text V1 kvs)"
    using serialize_Some [of ?p ?d] ca by simp
  with raw parse show ?thesis by blast
qed

lemma serialize_parsed:
  assumes "from_file f = Inr p" "f \<noteq> []"
  shows "\<exists>kvs h. serialize p = Inr (pointer_text V1 kvs) \<and>
      kvs = sort (canonical_attrs p (the (oid p))) \<and>
      list_all wf_attr kvs \<and> sorted (map fst kvs) \<and> distinct (map fst kvs) \<and>
      map_of kvs Key_OID = Some (''sha256:'' @ h) \<and> length h = 64 \<and> list_all is_hexdigit h \<and>
      map_of kvs Key_SIZE = Some (format_d (size_int p)) \<and> 0 \<le> size_int p \<and>
      (\<exists>raw. oid p = Some \<lparr>hexsha = h, sha = raw\<rparr> \<and> unhexlify h = Inr raw) \<and>
      (\<forall>k. k \<noteq> Key_OID \<and> k \<noteq> Key_SIZE \<longrightarrow> map_of kvs k = map_of (attrs p) k)"
proof -
  from from_file_facts [OF assms] obtain d h raw sv
    where d: "map_of d Key_OID = Some (''sha256:'' @ h)" "length h = 64"
      "list_all is_hexdigit h" "unhexlify h = Inr raw" "map_of d Key_SIZE = Some sv"
      "isdigit sv" "list_all wf_attr d" "distinct (map fst d)"
      and p: "p = \<lparr>attrs = d, oid = Some \<lparr>hexsha = h, sha = raw\<rparr>, size_int = int_of_bytes sv\<rparr>"
    by blast
  let ?dg = "\<lparr>hexsha = h, sha = raw\<rparr>"
  let ?kvs = "sort (canonical_attrs p ?dg)"
  have oidp: "oid p = Some ?dg" and at: "attrs p = d" by (simp_all add: p)
  have nn: "0 \<le> size_int p" using d(6) by (simp add: p int_of_bytes_nonneg)
  have asc: "ascii (hexsha ?dg)" using d(3) by (simp add: ascii_hexdigits)
  have di: "distinct (map fst (attrs p))" using d(8) by (simp add: at)
  note ca = canonical_attrs_facts [OF di, of ?dg]
  note sk = sort_keys [OF ca(1)]
  have wf: "list_all wf_attr (canonical_attrs p ?dg)"
    by (rule canonical_attrs_wf) (simp_all add: at d nn)
  then have wfk: "list_all wf_attr ?kvs" by (simp add: list_all_iff)
  have 1: "serialize p = Inr (pointer_text V1 ?kvs)" by (rule serialize_Some [OF oidp asc])
  have 2: "map_of ?kvs Key_OID = Some (''sha256:'' @ h)" unfolding sk(4) ca(3) by simp
  have 3: "map_of ?kvs Key_SIZE = Some (format_d (size_int p))" unfolding sk(4) ca(3) by simp
  have 4: "\<forall>k. k \<noteq> Key_OID \<and> k \<noteq> Key_SIZE \<longrightarrow> map_of ?kvs k = map_of (attrs p) k"
    unfolding sk(4) ca(3) by simp
  have 5: "?kvs = sort (canonical_attrs p (the (oid p)))" by (simp add: oidp)
  from 1 5 wfk sk(1) sk(2) 2 d(2) d(3) 3 nn oidp d(4) 4 show ?thesis by blast
qed

lemma reserialize_Inr:
  "reserialize b = Inr out \<longleftrightarrow> (\<exists>p. from_file b = Inr p \<and> b \<noteq> [] \<and> serialize p = Inr out)"
proof (cases "b = []")
  case True
  then show ?thesis
    by (simp add: reserialize_def from_bytes_def from_file_Nil serialize_None Pointer_init_def)
next
  case False
  then show ?thesis by (auto simp: reserialize_def from_bytes_def split: sum.splits)
qed

lemma pointer_text_nonempty: "pointer_text ver kvs \<noteq> []"
  by (simp add: pointer_text_def Key_VERSION_def)

lemma reserialize_canonical:
  assumes "list_all wf_attr kvs" "sorted (map fst kvs)" "distinct (map fst kvs)"
    "map_of kvs Key_OID = Some (''sha256:'' @ h)" "length h = 64" "list_all is_hexdigit h"
    "map_of kvs Key_SIZE = Some (format_d n)" "0 \<le> n"
  shows "reserialize (pointer_text ver kvs) = Inr (pointer_text V1 kvs)"
  using canonical_fixpoint [OF assms, of ver]
  by (auto simp: reserialize_Inr pointer_text_nonempty)

lemma reserialize_idem:
  assumes "reserialize b = Inr out"
  shows "reserialize out = Inr out"
proof -
  from assms obtain p where p: "from_file b = Inr p" "b \<noteq> []" "serialize p = Inr out"
    by (auto simp: reserialize_Inr)
  from serialize_parsed [OF p(1) p(2)] p(3) obtain kvs h
    where "out = pointer_text V1 kvs" "list_all wf_attr kvs" "sorted (map fst kvs)"
      "distinct (map fst kvs)" "map_of kvs Key_OID = Some (''sha256:'' @ h)" "length h = 64"
      "list_all is_hexdigit h" "map_of kvs Key_SIZE = Some (format_d (size_int p))"
      "0 \<le> size_int p"
    by auto
  then show ?thesis using reserialize_canonical [of kvs h "size_int p" V1] by simp
qed

lemma reserialize_pointer_text:
  assumes "list_all wf_attr kvs" "map_of (rev kvs) Key_OID = Some (''sha256:'' @ h)"
    "length h = 64" "list_all is_hexdigit h" "map_of (rev kvs) Key_SIZE = Some sv" "isdigit sv"
  shows "reserialize (pointer_text ver kvs)
     = Inr (pointer_text V1 (sort (AList.update Key_OID (''sha256:'' @ h)
         (AList.update Key_SIZE (format_d (int_of_bytes sv)) (store_all kvs [])))))"
proof -
  let ?d = "store_all kvs []"
  have o: "map_of ?d Key_OID = Some (''sha256:'' @ h)"
    and s: "map_of ?d Key_SIZE = Some sv"
    using assms(2) assms(5) by (simp_all add: map_of_store_all_Nil)
  from finish_ok [OF o assms(3) assms(4) s assms(6)] obtain raw
    where fin: "finish ?d = Inr \<lparr>attrs = ?d, oid = Some \<lparr>hexsha = h, sha = raw\<rparr>,
                     size_int = int_of_bytes sv\<rparr>"
    by blast
  let ?dg = "\<lparr>hexsha = h, sha = raw\<rparr>"
  let ?p = "\<lparr>attrs = ?d, oid = Some ?dg, size_int = int_of_bytes sv\<rparr>"
  have parse: "from_file (pointer_text ver kvs) = Inr ?p"
    by (simp add: from_file_pointer_text [OF assms(1)] fin)
  have "ascii (hexsha ?dg)" using assms(4) by (simp add: ascii_hexdigits)
  then have "serialize ?p = Inr (pointer_text V1 (sort (canonical_attrs ?p ?dg)))"
    by (intro serialize_Some) simp_all
  then show ?thesis using parse
    by (simp add: reserialize_def from_bytes_def canonical_attrs_def)
qed

lemma hex_example_NL: "NL \<notin> set hex_example"
  using hex_example_ok(2) hexdigit_not_NL by (auto simp: list_all_iff)

lemma sort_example:
  "sort [(''oid'', ''sha256:'' @ hex_example), (''size'', ''12345'')]
     = [(''oid'', ''sha256:'' @ hex_example), (''size'' :: bytes, ''12345'' :: bytes)]"
  unfolding hex_example_def by code_simp

lemma reserialize_leading_zero_example: "reserialize leading_zero_example = Inr pointer_example"
proof -
  let ?kvs = "[(''oid'', ''sha256:'' @ hex_example), (''size'', ''012345'')]"
  have wf: "list_all wf_attr ?kvs" using hex_example_NL by (simp add: wf_attr_def NL_def)
  have o: "map_of (rev ?kvs) Key_OID = Some (''sha256:'' @ hex_example)"
    by (simp add: Key_OID_def)
  have s: "map_of (rev ?kvs) Key_SIZE = Some ''012345''" by (simp add: Key_SIZE_def)
  have dg: "isdigit ''012345''" by (simp add: isdigit_def)
  have f: "format_d (int_of_bytes ''012345'') = ''12345''"
    by (simp add: format_d_def digits.simps int_of_bytes_def, code_simp)
  have st: "store_all ?kvs [] = ?kvs" by (simp add: store_all_def)
  have "AList.update Key_OID (''sha256:'' @ hex_example)
          (AList.update Key_SIZE ''12345'' ?kvs)
      = [(''oid'', ''sha256:'' @ hex_example), (''size'', ''12345'')]"
    by (simp add: Key_OID_def Key_SIZE_def)
  with reserialize_pointer_text [OF wf o hex_example_ok s dg, of V1] show ?thesis
    by (simp only: leading_zero_example_def pointer_example_def f st sort_example)
qed


lemma read_attrs_values:
  assumes "read_attrs d ls = Inr d'" "map_of d' k = Some v"
  shows "map_of d k = Some v \<or> (\<exists>l\<in>set ls. rstrip_nl l = k @ CHR '' '' # v)"
  using assms
proof (induction ls arbitrary: d)
  case Nil
  then show ?case by simp
next
  case (Cons x ls)
  from Cons.prems(1) obtain a b where ab: "unpack2 (split1 CHR '' '' (rstrip_nl x)) = Inr (a, b)"
    by (cases "unpack2 (split1 CHR '' '' (rstrip_nl x))") auto
  with Cons.prems(1) have "read_attrs (AList.update a b d) ls = Inr d'" by simp
  from Cons.IH [OF this Cons.prems(2)]
  have "map_of (AList.update a b d) k = Some v \<or> (\<exists>l\<in>set ls. rstrip_nl l = k @ CHR '' '' # v)" .
  then show ?case using split1_Inr [OF ab]
    by (auto simp: update_conv' split: if_splits)
qed

lemma line_key_attr_line: "wf_attr kv \<Longrightarrow> line_key (attr_line kv) = fst kv"
proof -
  assume wf: "wf_attr kv"
  obtain k v where kv: "kv = (k, v)" by (cases kv)
  from wf have "wf_attr (k, v)" by (simp add: kv)
  then have "unpack2 (split1 CHR '' '' (rstrip_nl (attr_line (k, v)))) = Inr (k, v)"
    by (rule parse_attr_line)
  then have "line_key (attr_line (k, v)) = k" by (rule line_key_split)
  then show ?thesis by (simp add: kv)
qed

lemma filter_key:
  "distinct (map fst kvs) \<Longrightarrow> (k, v) \<in> set kvs \<Longrightarrow> filter (\<lambda>kv. fst kv = k) kvs = [(k, v)]"
proof (induction kvs)
  case Nil
  then show ?case by simp
next
  case (Cons x kvs)
  show ?case
  proof (cases "x = (k, v)")
    case True
    with Cons.prems(1) have "\<forall>kv\<in>set kvs. fst kv \<noteq> k" by auto
    then have "filter (\<lambda>kv. fst kv = k) kvs = []" by (simp add: filter_empty_conv)
    with True show ?thesis by simp
  next
    case False
    with Cons.prems(2) have mem: "(k, v) \<in> set kvs" by auto
    then have "k \<in> fst ` set kvs" by force
    with Cons.prems(1) have "fst x \<noteq> k" by auto
    with Cons.IH Cons.prems(1) mem show ?thesis by simp
  qed
qed

lemma filter_attr_lines:
  assumes "list_all wf_attr kvs" "distinct (map fst kvs)" "(k, v) \<in> set kvs"
  shows "filter (\<lambda>l. line_key l = k) (map attr_line kvs) = [attr_line (k, v)]"
proof -
  have "filter (\<lambda>l. line_key l = k) (map attr_line kvs)
      = map attr_line (filter (\<lambda>kv. line_key (attr_line kv) = k) kvs)"
    by (simp add: filter_map comp_def)
  also have "filter (\<lambda>kv. line_key (attr_line kv) = k) kvs = filter (\<lambda>kv. fst kv = k) kvs"
    using assms(1) by (intro filter_cong refl) (simp add: list_all_iff line_key_attr_line)
  also have "\<dots> = [(k, v)]" by (rule filter_key [OF assms(2) assms(3)])
  finally show ?thesis by simp
qed

lemma version_line_wf: "wf_attr (Key_VERSION, Version_value ver)"
  by (simp add: wf_attr_def version_line_facts) (simp add: Key_VERSION_def NL_def)

lemma iter_lines_pointer_text:
  assumes "list_all wf_attr kvs"
  shows "iter_lines (pointer_text ver kvs)
     = attr_line (Key_VERSION, Version_value ver) # map attr_line kvs"
proof -
  have "pointer_text ver kvs = concat (map attr_line ((Key_VERSION, Version_value ver) # kvs))"
    by (simp add: pointer_text_def attr_line_def)
  moreover have "list_all wf_attr ((Key_VERSION, Version_value ver) # kvs)"
    using assms version_line_wf by simp
  ultimately show ?thesis using iter_lines_attr_lines by (metis list.simps(9))
qed

lemma from_file_accepts:
  assumes "list_all wf_attr kvs" "distinct (map fst kvs)"
    "map_of kvs Key_OID = Some (''sha256:'' @ h)" "length h = 64" "list_all is_hexdigit h"
    "map_of kvs Key_SIZE = Some sv" "isdigit sv"
  shows "\<exists>p. from_file (pointer_text ver kvs) = Inr p"
proof -
  have st: "store_all kvs [] = kvs" using store_all_distinct [of "[]" kvs] assms(2) by simp
  from finish_ok [OF assms(3) assms(4) assms(5) assms(6) assms(7)]
  obtain p where "finish kvs = Inr p" by blast
  then show ?thesis by (simp add: from_file_pointer_text [OF assms(1)] st)
qed

subsection \<open>The doctests of the source\<close>

text \<open>
  The examples in the docstrings of \<^verbatim>\<open>_verify_version\<close>, \<^verbatim>\<open>SHA256.__init__\<close>,
  \<^verbatim>\<open>from_bytes\<close> and \<^verbatim>\<open>__bytes__\<close>, run on the model.
\<close>

lemma reserialize_pointer_example: "reserialize pointer_example = Inr pointer_example"
  using reserialize_leading_zero_example by (rule reserialize_idem)

lemma reserialize_legacy_example: "reserialize legacy_example = Inr pointer_example"
proof -
  let ?kvs = "[(''size'', ''12345''), (''oid'', ''sha256:'' @ hex_example)]"
  have wf: "list_all wf_attr ?kvs" using hex_example_NL by (simp add: wf_attr_def NL_def)
  have o: "map_of (rev ?kvs) Key_OID = Some (''sha256:'' @ hex_example)"
    by (simp add: Key_OID_def)
  have s: "map_of (rev ?kvs) Key_SIZE = Some ''12345''" by (simp add: Key_SIZE_def Key_OID_def)
  have dg: "isdigit ''12345''" by (simp add: isdigit_def)
  have f: "format_d (int_of_bytes ''12345'') = ''12345''"
    by (simp add: format_d_def digits.simps int_of_bytes_def, code_simp)
  have st: "store_all ?kvs [] = ?kvs" by (simp add: store_all_def)
  have so: "sort ?kvs = [(''oid'', ''sha256:'' @ hex_example), (''size'', ''12345'')]"
    unfolding hex_example_def by code_simp
  have up: "AList.update Key_OID (''sha256:'' @ hex_example)
          (AList.update Key_SIZE ''12345'' ?kvs) = ?kvs"
    by (simp add: Key_OID_def Key_SIZE_def)
  from reserialize_pointer_text [OF wf o hex_example_ok s dg, of PRE] show ?thesis
    by (simp only: legacy_example_def pointer_example_def f st up so)
qed

lemma doctests:
  "verify_version (''version https://git-lfs.github.com/spec/v1'' @ [NL]) = Inr (Bool True)"
  "verify_version (''version 1'' @ [NL]) = Inr (Bool False)"
  "verify_version (''Version 1'' @ [NL]) = Inr (Exc PointerFormatException)"
  "SHA256_init (Str (str_of hex_short)) = Inl ValueError"
  "from_bytes [] = Inr Pointer_init"
  "reserialize pointer_example = Inr pointer_example"
  "reserialize legacy_example = Inr pointer_example"
proof -
  show "verify_version (''version https://git-lfs.github.com/spec/v1'' @ [NL]) = Inr (Bool True)"
    by code_simp
  show "verify_version (''version 1'' @ [NL]) = Inr (Bool False)" by code_simp
  show "verify_version (''Version 1'' @ [NL]) = Inr (Exc PointerFormatException)" by code_simp
  show "SHA256_init (Str (str_of hex_short)) = Inl ValueError"
    unfolding hex_short_def by code_simp
  show "from_bytes [] = Inr Pointer_init" by (simp add: from_bytes_def from_file_Nil)
  show "reserialize pointer_example = Inr pointer_example" by (rule reserialize_pointer_example)
  show "reserialize legacy_example = Inr pointer_example" by (rule reserialize_legacy_example)
qed

section \<open>The claims\<close>






text \<open>
  C3. For every input that the parser accepts and whose version line carries one of the
  two legacy schema URIs, serialization succeeds and the first line of the output is the
  version line of the primary URI, not that of the legacy one.
\<close>

theorem version_normalized:
  assumes "ver = PRE \<or> ver = ALPHA"
    "from_file (''version '' @ Version_value ver @ [NL] @ rest) = Inr p"
  shows "\<exists>out. serialize p = Inr out \<and>
      fst (readline out) = ''version https://git-lfs.github.com/spec/v1'' @ [NL] \<and>
      fst (readline out) \<noteq> ''version '' @ Version_value ver @ [NL]"
proof -
  from from_file_facts [OF assms(2)] obtain h raw
    where p: "oid p = Some \<lparr>hexsha = h, sha = raw\<rparr>" "list_all is_hexdigit h"
    by auto
  have "ascii (hexsha \<lparr>hexsha = h, sha = raw\<rparr>)" using p(2) by (simp add: ascii_hexdigits)
  from serialize_Some [OF p(1) this] obtain kvs
    where out: "serialize p = Inr (pointer_text V1 kvs)" by blast
  have l: "fst (readline (pointer_text V1 kvs)) = ''version '' @ Version_value V1 @ [NL]"
    by (simp add: readline_pointer_text Key_VERSION_def)
  have "Version_value V1 \<noteq> Version_value ver" using assms(1) by auto
  with l out show ?thesis by auto
qed

theorem version_normalized_witness:
  "(PRE = PRE \<or> PRE = ALPHA) \<and>
   (\<exists>p out. from_file (''version '' @ Version_value PRE @ [NL]
               @ concat (map attr_line [(''size'', ''12345''), (''oid'', ''sha256:'' @ hex_example)]))
             = Inr p \<and>
     serialize p = Inr out \<and>
     fst (readline out) = ''version https://git-lfs.github.com/spec/v1'' @ [NL])"
proof -
  let ?kvs = "[(''size'', ''12345''), (''oid'', ''sha256:'' @ hex_example)]"
  let ?rest = "concat (map attr_line ?kvs)"
  have nl: "NL \<notin> set hex_example" using hex_example_ok(2) hexdigit_not_NL
    by (auto simp: list_all_iff)
  have wf: "list_all wf_attr ?kvs" using nl by (simp add: wf_attr_def NL_def)
  have st: "store_all ?kvs [] = ?kvs" by (rule store_all_distinct [of "[]", simplified]) simp
  have "isdigit ''12345''" by (simp add: isdigit_def)
  with finish_ok [of ?kvs hex_example "''12345''"] hex_example_ok obtain p
    where fin: "finish ?kvs = Inr p"
    by (auto simp: Key_OID_def Key_SIZE_def)
  have "from_file (pointer_text PRE ?kvs) = Inr p"
    using from_file_pointer_text [OF wf, of PRE] st fin by simp
  then have parse: "from_file (''version '' @ Version_value PRE @ [NL] @ ?rest) = Inr p"
    by (simp add: pointer_text_def Key_VERSION_def)
  from version_normalized [OF _ parse] parse show ?thesis by blast
qed

text \<open>
  C4, as stated, fails on an attribute line with no space: the tuple assignment of the
  split raises \<^verbatim>\<open>ValueError\<close>, which is not \<^verbatim>\<open>PointerFormatException\<close>.
\<close>

theorem counterexample_attr_line_without_space:
  "no_space_example = ''version https://git-lfs.github.com/spec/v1'' @ [NL] @ ''foo'' @ [NL] \<and>
   from_file no_space_example = Inl ValueError \<and>
   from_file no_space_example \<noteq> Inl PointerFormatException"
  unfolding no_space_example_def pointer_text_def Key_VERSION_def by code_simp

text \<open>
  C4, amended. For every input with a version line of a recognized schema and an
  attribute line that holds no space, parsing fails and returns no record; the error is
  the \<^verbatim>\<open>ValueError\<close> of the tuple assignment, not \<^verbatim>\<open>PointerFormatException\<close>.
\<close>

theorem attr_line_without_space:
  assumes "l \<in> set (iter_lines rest)" "CHR '' '' \<notin> set l"
  shows "from_file (''version '' @ Version_value ver @ [NL] @ rest) = Inl ValueError \<and>
         ValueError \<noteq> PointerFormatException"
proof -
  have eq: "''version '' @ Version_value ver @ [NL] @ rest
      = Key_VERSION @ CHR '' '' # Version_value ver @ NL # rest"
    by (simp add: Key_VERSION_def)
  show ?thesis unfolding eq
    by (simp add: from_file_version_line version_line_facts read_attrs_bad_line [OF assms])
qed

theorem attr_line_without_space_witness:
  "''foo'' @ [NL] \<in> set (iter_lines (''foo'' @ [NL])) \<and> CHR '' '' \<notin> set (''foo'' @ [NL]) \<and>
   from_file (''version '' @ Version_value V1 @ [NL] @ ''foo'' @ [NL]) = Inl ValueError"
proof -
  have "iter_lines (''foo'' @ NL # []) = [''foo'' @ [NL]]"
    by (subst iter_lines_line) (simp_all add: NL_def)
  then have a: "''foo'' @ [NL] \<in> set (iter_lines (''foo'' @ [NL]))" by simp
  have b: "CHR '' '' \<notin> set (''foo'' @ [NL])" by (simp add: NL_def)
  from attr_line_without_space [OF a b, of V1] a b show ?thesis by blast
qed

text \<open>
  What the first line does is left out of the amended claim. \<^verbatim>\<open>_verify_version\<close> builds
  \<^verbatim>\<open>PointerFormatException('Missing version')\<close> for a first line without newline,
  without space or with another key, but returns it; \<^verbatim>\<open>from_file\<close> tests the result with
  \<^verbatim>\<open>not\<close>, and an exception object is true. Such a first line is taken as a good
  version line.
\<close>

lemma malformed_first_line_accepted:
  "verify_version (''Version 1'' @ [NL]) = Inr (Exc PointerFormatException) \<and>
   map_sum id size_int (from_file bad_first_line_example) = Inr 12345"
  unfolding bad_first_line_example_def hex_example_def by code_simp




text \<open>
  C6, as stated, fails on a first line longer than the 256 bytes the parser reads of it:
  the line below ends with a newline, has the key \<^verbatim>\<open>version\<close> and an unknown value, but
  what \<^verbatim>\<open>readline(256)\<close> returns of it has no newline, \<^verbatim>\<open>_verify_version\<close> returns its
  exception object, which is true, and the parse goes on to fail with \<^verbatim>\<open>ValueError\<close> on
  the rest of the line.
\<close>

theorem counterexample_unsupported_version:
  "fst (readline long_version) = long_version \<and> endswith_nl long_version \<and>
   unpack2 (split1 CHR '' '' (rstrip_nl long_version))
     = Inr (Key_VERSION, replicate 248 (CHR ''x'')) \<and>
   \<not> Version_verify (replicate 248 (CHR ''x'')) \<and>
   from_file long_version = Inl ValueError \<and>
   from_file long_version \<noteq> Inl VersionUnsupportedException"
  unfolding long_version_def by code_simp

text \<open>
  C6, amended. For every input whose first line, newline included, is at most 256 bytes
  long, has the key \<^verbatim>\<open>version\<close> and a value that is none of the three schema URIs,
  parsing fails with \<^verbatim>\<open>VersionUnsupportedException\<close>, which is not
  \<^verbatim>\<open>PointerFormatException\<close>. The value is all that follows the first space, so it may
  hold spaces itself.
\<close>

theorem unsupported_version:
  assumes "NL \<notin> set v" "length (''version '' @ v @ [NL]) \<le> 256"
    "v \<notin> {Version_value V1, Version_value PRE, Version_value ALPHA}"
  shows "from_file (''version '' @ v @ [NL] @ rest) = Inl VersionUnsupportedException \<and>
         VersionUnsupportedException \<noteq> PointerFormatException"
proof -
  have len: "length v < 248" using assms(2) by simp
  have nv: "\<not> Version_verify v" using assms(3) by (simp add: Version_verify_def)
  have eq: "''version '' @ v @ [NL] @ rest = Key_VERSION @ CHR '' '' # v @ NL # rest"
    by (simp add: Key_VERSION_def)
  show ?thesis unfolding eq using from_file_version_line [OF assms(1) len, of rest] nv by simp
qed

theorem unsupported_version_witness:
  "NL \<notin> set ''1'' \<and> length (''version '' @ ''1'' @ [NL]) \<le> 256 \<and>
   ''1'' \<notin> {Version_value V1, Version_value PRE, Version_value ALPHA} \<and>
   from_file (''version '' @ ''1'' @ [NL] @ ''oid sha256:x'') = Inl VersionUnsupportedException"
proof -
  have a: "NL \<notin> set ''1''" by (simp add: NL_def)
  have b: "length (''version '' @ ''1'' @ [NL]) \<le> 256" by simp
  have c: "''1'' \<notin> {Version_value V1, Version_value PRE, Version_value ALPHA}" by simp
  from unsupported_version [OF a b c, of "''oid sha256:x''"] a b c show ?thesis by blast
qed

text \<open>
  C7. For every input made of a version line of a recognized schema and well-formed
  attribute lines, whose \<^verbatim>\<open>oid\<close> value (that of the last line with this key) has before
  its first colon a tag other than \<^verbatim>\<open>sha256\<close>, parsing fails with
  \<^verbatim>\<open>PointerFormatException\<close>, which is not \<^verbatim>\<open>VersionUnsupportedException\<close>; the size
  attribute is not looked at.
\<close>

theorem unsupported_oid_type:
  assumes "list_all wf_attr kvs" "map_of (rev kvs) Key_OID = Some (tag @ '':'' @ h)"
    "CHR '':'' \<notin> set tag" "tag \<noteq> ''sha256''"
  shows "from_file (pointer_text ver kvs) = Inl PointerFormatException \<and>
         PointerFormatException \<noteq> VersionUnsupportedException"
proof -
  have "map_of (store_all kvs []) Key_OID = Some (tag @ CHR '':'' # h)"
    using assms(2) by (simp add: map_of_store_all_Nil)
  from finish_bad_tag [OF this assms(3) assms(4)] show ?thesis
    by (simp add: from_file_pointer_text [OF assms(1)])
qed

theorem unsupported_oid_type_witness:
  "list_all wf_attr [(''oid'', ''md5:d41d8cd98f00b204e9800998ecf8427e''), (''size'', ''0'')] \<and>
   map_of (rev [(''oid'', ''md5:d41d8cd98f00b204e9800998ecf8427e''), (''size'', ''0'')]) Key_OID
     = Some (''md5'' @ '':'' @ ''d41d8cd98f00b204e9800998ecf8427e'') \<and>
   CHR '':'' \<notin> set ''md5'' \<and> ''md5'' \<noteq> ''sha256'' \<and>
   from_file md5_example = Inl PointerFormatException"
proof -
  have a: "list_all wf_attr [(''oid'', ''md5:d41d8cd98f00b204e9800998ecf8427e''), (''size'', ''0'')]"
    by (simp add: wf_attr_def NL_def)
  have b: "map_of (rev [(''oid'', ''md5:d41d8cd98f00b204e9800998ecf8427e''), (''size'', ''0'')]) Key_OID
     = Some (''md5'' @ '':'' @ ''d41d8cd98f00b204e9800998ecf8427e'')"
    by (simp add: Key_OID_def)
  have c: "CHR '':'' \<notin> set ''md5''" by simp
  have d: "''md5'' \<noteq> ''sha256''" by simp
  from unsupported_oid_type [OF a b c d, of V1] a b c d show ?thesis
    unfolding md5_example_def by blast
qed



text \<open>
  C9. Parsing the empty stream does not raise: it returns the default record, whose
  version is the primary schema URI, whose size is 0 and which has no digest. No other
  input is excused from having an \<^verbatim>\<open>oid\<close>: a non-empty input none of whose attribute
  lines has the key \<^verbatim>\<open>oid\<close> makes the parser fail.
\<close>

theorem from_file_empty:
  "from_file [] = Inr Pointer_init \<and> from_bytes [] = Inr Pointer_init \<and>
   Version_value Pointer_version = ''https://git-lfs.github.com/spec/v1'' \<and>
   size_int Pointer_init = 0 \<and> oid Pointer_init = None \<and>
   (f \<noteq> [] \<and> (\<forall>l\<in>set (attr_lines f). line_key l \<noteq> Key_OID) \<longrightarrow>
      (\<exists>e. from_file f = Inl e))"
  using from_file_no_oid_line [of f]
  by (simp add: from_file_Nil from_bytes_def Pointer_version_def Pointer_init_def)

theorem from_file_empty_witness:
  "version_only \<noteq> [] \<and> attr_lines version_only = [] \<and>
   (\<exists>e. from_file version_only = Inl e)"
proof -
  have a: "version_only \<noteq> []" by (simp add: version_only_def pointer_text_def)
  have b: "\<forall>l\<in>set (attr_lines version_only). line_key l \<noteq> Key_OID"
    by (simp add: attr_lines_version_only)
  from a b from_file_empty [of version_only] show ?thesis
    by (simp add: attr_lines_version_only)
qed

text \<open>
  C10. For every accepted input with a version line of a recognized schema and, after
  it, an attribute line whose key is \<^verbatim>\<open>version\<close>, the parser stores the key in the
  attribute dictionary, with the value of such a line, and the serializer writes it as
  one more line \<^verbatim>\<open>version <stored value>\<close> among the sorted attribute lines: the output
  has exactly two lines with the key \<^verbatim>\<open>version\<close>, the leading one of the primary URI and
  the stored one.
\<close>

theorem version_attribute_survives:
  assumes "from_file (''version '' @ Version_value ver @ [NL] @ rest) = Inr p"
    "l \<in> set (iter_lines rest)" "line_key l = ''version''"
  shows "\<exists>v out kvs. map_of (attrs p) ''version'' = Some v \<and>
      (\<exists>l'\<in>set (iter_lines rest). rstrip_nl l' = ''version '' @ v) \<and>
      serialize p = Inr out \<and>
      iter_lines out
        = (''version https://git-lfs.github.com/spec/v1'' @ [NL]) # map attr_line kvs \<and>
      sorted (map fst kvs) \<and> (''version'', v) \<in> set kvs \<and>
      filter (\<lambda>l. line_key l = ''version'') (iter_lines out)
        = [''version https://git-lfs.github.com/spec/v1'' @ [NL], ''version '' @ v @ [NL]]"
proof -
  let ?f = "''version '' @ Version_value ver @ [NL] @ rest"
  have eq: "?f = Key_VERSION @ CHR '' '' # Version_value ver @ NL # rest"
    by (simp add: Key_VERSION_def)
  have al: "attr_lines ?f = iter_lines rest"
    unfolding eq attr_lines_def by (simp add: readline_n_version_line version_line_facts)
  have ne: "?f \<noteq> []" by simp
  from from_file_facts [OF assms(1) ne] obtain d
    where d: "read_attrs [] (iter_lines rest) = Inr d" "attrs p = d"
    unfolding al by auto
  have "map_of d Key_VERSION \<noteq> None"
    using read_attrs_stores [OF d(1), of l Key_VERSION] assms(2) assms(3)
    by (simp add: Key_VERSION_def)
  then obtain v where v: "map_of d Key_VERSION = Some v" by auto
  from read_attrs_values [OF d(1) v]
  have src: "\<exists>l'\<in>set (iter_lines rest). rstrip_nl l' = ''version '' @ v"
    by (simp add: Key_VERSION_def)
  from serialize_parsed [OF assms(1) ne] obtain kvs
    where k: "serialize p = Inr (pointer_text V1 kvs)" "list_all wf_attr kvs"
      "sorted (map fst kvs)" "distinct (map fst kvs)"
      "\<forall>k. k \<noteq> Key_OID \<and> k \<noteq> Key_SIZE \<longrightarrow> map_of kvs k = map_of (attrs p) k"
    by blast
  have "map_of kvs Key_VERSION = Some v" using k(5) v d(2) by simp
  then have mem: "(Key_VERSION, v) \<in> set kvs" by (rule map_of_SomeD)
  have first: "attr_line (Key_VERSION, Version_value V1)
      = ''version https://git-lfs.github.com/spec/v1'' @ [NL]"
    by (simp add: attr_line_def Key_VERSION_def)
  have lines: "iter_lines (pointer_text V1 kvs)
      = (''version https://git-lfs.github.com/spec/v1'' @ [NL]) # map attr_line kvs"
    using iter_lines_pointer_text [OF k(2), of V1] first by simp
  have k1: "line_key (attr_line (Key_VERSION, Version_value V1)) = Key_VERSION"
    using line_key_attr_line [OF version_line_wf, of V1] by simp
  have "filter (\<lambda>l. line_key l = Key_VERSION) (iter_lines (pointer_text V1 kvs))
      = [attr_line (Key_VERSION, Version_value V1), attr_line (Key_VERSION, v)]"
    using iter_lines_pointer_text [OF k(2), of V1] k1
      filter_attr_lines [OF k(2) k(4) mem] by simp
  then have two: "filter (\<lambda>l. line_key l = ''version'') (iter_lines (pointer_text V1 kvs))
      = [''version https://git-lfs.github.com/spec/v1'' @ [NL], ''version '' @ v @ [NL]]"
    by (simp add: attr_line_def Key_VERSION_def)
  have "map_of (attrs p) ''version'' = Some v" using v d(2) by (simp add: Key_VERSION_def)
  moreover have "(''version'', v) \<in> set kvs" using mem by (simp add: Key_VERSION_def)
  ultimately show ?thesis using src k(1) lines k(3) two by blast
qed

theorem version_attribute_survives_witness:
  "\<exists>p. from_file (''version '' @ Version_value PRE @ [NL]
            @ concat (map attr_line [(''version'', ''2''), (''size'', ''12345''),
                                     (''oid'', ''sha256:'' @ hex_example)])) = Inr p \<and>
       attr_line (''version'', ''2'')
         \<in> set (iter_lines (concat (map attr_line [(''version'', ''2''), (''size'', ''12345''),
                                     (''oid'', ''sha256:'' @ hex_example)]))) \<and>
       line_key (attr_line (''version'', ''2'')) = ''version'' \<and>
       (\<exists>v out. map_of (attrs p) ''version'' = Some v \<and> serialize p = Inr out \<and>
          filter (\<lambda>l. line_key l = ''version'') (iter_lines out)
            = [''version https://git-lfs.github.com/spec/v1'' @ [NL], ''version '' @ v @ [NL]])"
proof -
  let ?kvs = "[(''version'', ''2''), (''size'', ''12345''), (''oid'', ''sha256:'' @ hex_example)]"
  let ?rest = "concat (map attr_line ?kvs)"
  have wf: "list_all wf_attr ?kvs" using hex_example_NL by (simp add: wf_attr_def NL_def)
  have "isdigit ''12345''" by (simp add: isdigit_def)
  with from_file_accepts [OF wf, of hex_example "''12345''" PRE] hex_example_ok obtain p
    where "from_file (pointer_text PRE ?kvs) = Inr p"
    by (auto simp: Key_OID_def Key_SIZE_def)
  then have parse: "from_file (''version '' @ Version_value PRE @ [NL] @ ?rest) = Inr p"
    by (simp add: pointer_text_def Key_VERSION_def)
  have mem: "attr_line (''version'', ''2'') \<in> set (iter_lines ?rest)"
    unfolding iter_lines_attr_lines [OF wf] by simp
  have "wf_attr (''version'', ''2'')" using wf by simp
  from line_key_attr_line [OF this]
  have key: "line_key (attr_line (''version'', ''2'')) = ''version''" by simp
  from version_attribute_survives [OF parse mem key] parse mem key show ?thesis by blast
qed

end
